theory Spec2Isabelle
  imports Main "HOL-Library.Word"
begin

section \<open>Bytes, decimal numbers and the library the client calls\<close>

text \<open>
  A Go \<open>string\<close> and a \<open>[]byte\<close> are both sequences of bytes: \<open>string\<close> (a list of
  8-bit characters). \<open>len\<close> is \<open>length\<close>.
\<close>

definition NL :: char where
  "NL = CHR 0x0A"

definition CR :: char where
  "CR = CHR 0x0D"

definition BSL :: char where
  "BSL = CHR 0x5C"

definition max_int :: int where
  "max_int = 2 ^ 63 - 1"

text \<open>\<open>fmt.Sprintf("%d", n)\<close>: the decimal digits of a number, with a minus sign.\<close>

definition digit_char :: "nat \<Rightarrow> char" where
  "digit_char d = char_of (48 + d)"

fun dec_digits :: "nat \<Rightarrow> string" where
  "dec_digits n = (if n < 10 then [digit_char n] else dec_digits (n div 10) @ [digit_char (n mod 10)])"

declare dec_digits.simps [simp del]

definition Itoa :: "int \<Rightarrow> string" where
  "Itoa n = (if n < 0 then CHR ''-'' # dec_digits (nat (- n)) else dec_digits (nat n))"

text \<open>
  \<open>strconv.ParseInt(s, 10, 64)\<close> and \<open>strconv.Atoi(s)\<close> (the same function on a 64-bit
  platform): an optional sign, then at least one ASCII digit; a value outside the signed
  64-bit range is a range error, returned with the nearest bound.
\<close>

datatype num_error = ErrSyntax | ErrRange

definition is_digit :: "char \<Rightarrow> bool" where
  "is_digit c = (48 \<le> (of_char c :: nat) \<and> (of_char c :: nat) \<le> 57)"

definition digit_val :: "char \<Rightarrow> nat" where
  "digit_val c = of_char c - 48"

definition digits_val :: "string \<Rightarrow> nat" where
  "digits_val ds = foldl (\<lambda>a c. 10 * a + digit_val c) 0 ds"

definition ParseInt :: "string \<Rightarrow> int \<times> num_error option" where
  "ParseInt s =
     (case s of
        [] \<Rightarrow> (0, Some ErrSyntax)
      | c # r \<Rightarrow>
          (let neg = (c = CHR ''-'');
               ds = (if c = CHR ''+'' \<or> c = CHR ''-'' then r else s)
           in if ds = [] \<or> \<not> list_all is_digit ds then (0, Some ErrSyntax)
              else (let un = int (digits_val ds)
                    in if \<not> neg \<and> un \<ge> 2 ^ 63 then (2 ^ 63 - 1, Some ErrRange)
                       else if neg \<and> un > 2 ^ 63 then (- (2 ^ 63), Some ErrRange)
                       else (if neg then - un else un, None))))"

definition Atoi :: "string \<Rightarrow> int \<times> num_error option" where
  "Atoi s = ParseInt s"

text \<open>
  The packages \<open>compress/gzip\<close>, \<open>encoding/base64\<close> and \<open>fmt\<close>'s \<open>%f\<close> are not code of
  the client: they are parameters of the model. \<open>gzip\<close> is the output of a gzip writer
  over all the bytes written to it before \<open>Close\<close>; \<open>gunzip\<close> is \<open>gzip.NewReader\<close>
  followed by \<open>ioutil.ReadAll\<close>.
\<close>

typedecl float64

datatype gunzip_result = GzBadHeader | GzReadError | GzData string

record lib =
  gzip :: "string \<Rightarrow> string"
  gunzip :: "string \<Rightarrow> gunzip_result"
  b64enc :: "string \<Rightarrow> string"
  b64dec :: "string \<Rightarrow> string option"
  fmt_f :: "float64 \<Rightarrow> string"

text \<open>
  A stand-in library for evaluating the client on concrete inputs: a "stored" gzip that
  keeps the bytes behind a two-byte header, and a base64 that is the identity.
\<close>

definition stored_gunzip :: "string \<Rightarrow> gunzip_result" where
  "stored_gunzip z = (if take 2 z = ''GZ'' then GzData (drop 2 z) else GzBadHeader)"

definition stored_lib :: lib where
  "stored_lib = \<lparr> gzip = (\<lambda>d. ''GZ'' @ d), gunzip = stored_gunzip,
                  b64enc = (\<lambda>d. d), b64dec = (\<lambda>d. Some d),
                  fmt_f = (\<lambda>x. ''0.000000'') \<rparr>"

section \<open>Encoder: \<open>Client.Send\<close>\<close>

text \<open>
  The dynamic type of one element of \<open>args []interface{}\<close>, in the order of the type
  switch of \<open>Send\<close>; \<open>AOther\<close> is any type the switch does not list.
\<close>

datatype arg =
    AStr string
  | ABytes string
  | AStrList "string list"
  | AInt "64 word"
  | AInt64 "64 word"
  | AFloat64 float64
  | ABool bool
  | ANil
  | AIfaces "arg list"
  | AOther

datatype fault =
    BadArguments
  | PanicTypeAssert
  | PanicIndex
  | PanicSlice
  | PanicNilDeref
  | Base64Error
  | IoError

text \<open>The four writes that put one part on a buffer: length, newline, bytes, newline.\<close>

definition write_part :: "string \<Rightarrow> string \<Rightarrow> string" where
  "write_part buf s = buf @ Itoa (int (length s)) @ [NL] @ s @ [NL]"

text \<open>The loop over a \<open>[]interface{}\<close> argument: \<open>s.(string)\<close> panics on any other type.\<close>

fun iface_loop :: "arg list \<Rightarrow> string \<Rightarrow> fault + string" where
  "iface_loop [] buf = Inr buf"
| "iface_loop (AStr s # r) buf = iface_loop r (write_part buf s)"
| "iface_loop (_ # r) buf = Inl PanicTypeAssert"

text \<open>The branch \<open>else\<close> of \<open>Send\<close> (no compression): every part goes to \<open>buf\<close>.\<close>

fun send_plain_loop :: "lib \<Rightarrow> arg list \<Rightarrow> string \<Rightarrow> fault + string" where
  "send_plain_loop L [] buf = Inr buf"
| "send_plain_loop L (a # as) buf =
     (case a of
        AStr s \<Rightarrow> send_plain_loop L as (write_part buf s)
      | ABytes b \<Rightarrow> send_plain_loop L as (write_part buf b)
      | AStrList ss \<Rightarrow> send_plain_loop L as (foldl write_part buf ss)
      | AInt n \<Rightarrow> send_plain_loop L as (write_part buf (Itoa (sint n)))
      | AInt64 n \<Rightarrow> send_plain_loop L as (write_part buf (Itoa (sint n)))
      | AFloat64 x \<Rightarrow> send_plain_loop L as (write_part buf (fmt_f L x))
      | ABool b \<Rightarrow> send_plain_loop L as (write_part buf (if b then ''1'' else ''0''))
      | ANil \<Rightarrow> send_plain_loop L as (write_part buf [])
      | AIfaces xs \<Rightarrow>
          (case iface_loop xs buf of
             Inl e \<Rightarrow> Inl e
           | Inr buf' \<Rightarrow> send_plain_loop L as buf')
      | AOther \<Rightarrow> Inl BadArguments)"

text \<open>
  The branch \<open>if c.zip\<close>: the state is the outer buffer \<open>buf\<close> and the bytes written so
  far to the gzip writer \<open>w\<close>. A \<open>[]interface{}\<close> argument is written to \<open>buf\<close>, every
  other argument to \<open>w\<close>.
\<close>

fun send_zip_loop :: "lib \<Rightarrow> arg list \<Rightarrow> string \<Rightarrow> string \<Rightarrow> fault + (string \<times> string)" where
  "send_zip_loop L [] buf w = Inr (buf, w)"
| "send_zip_loop L (a # as) buf w =
     (case a of
        AStr s \<Rightarrow> send_zip_loop L as buf (write_part w s)
      | ABytes b \<Rightarrow> send_zip_loop L as buf (write_part w b)
      | AStrList ss \<Rightarrow> send_zip_loop L as buf (foldl write_part w ss)
      | AInt n \<Rightarrow> send_zip_loop L as buf (write_part w (Itoa (sint n)))
      | AInt64 n \<Rightarrow> send_zip_loop L as buf (write_part w (Itoa (sint n)))
      | AFloat64 x \<Rightarrow> send_zip_loop L as buf (write_part w (fmt_f L x))
      | ABool b \<Rightarrow> send_zip_loop L as buf (write_part w (if b then ''1'' else ''0''))
      | ANil \<Rightarrow> send_zip_loop L as buf (write_part w [])
      | AIfaces xs \<Rightarrow>
          (case iface_loop xs buf of
             Inl e \<Rightarrow> Inl e
           | Inr buf' \<Rightarrow> send_zip_loop L as buf' w)
      | AOther \<Rightarrow> Inl BadArguments)"

text \<open>
  \<open>Send\<close>: the bytes \<open>tmpBuf\<close> handed to the connection's \<open>Write\<close>, or the fault that ends
  the call before the write. The first argument is the field \<open>c.zip\<close>.
\<close>

definition Send :: "lib \<Rightarrow> bool \<Rightarrow> arg list \<Rightarrow> fault + string" where
  "Send L zipmode args =
     (if zipmode then
        (case send_zip_loop L args (''3'' @ [NL] @ ''zip'' @ [NL]) [] of
           Inl e \<Rightarrow> Inl e
         | Inr (buf, w) \<Rightarrow>
             (let zipbuff = b64enc L (gzip L w)
              in Inr (buf @ Itoa (int (length zipbuff)) @ [NL] @ zipbuff @ [NL] @ [NL])))
      else
        (case send_plain_loop L args [] of
           Inl e \<Rightarrow> Inl e
         | Inr buf \<Rightarrow> Inr (buf @ [NL])))"

section \<open>Incremental parser: \<open>Client.parse\<close>, \<open>Client.tranfUnZip\<close>, \<open>Client.recv\<close>\<close>

text \<open>\<open>bytes.IndexByte\<close>: the index of the first occurrence, \<open>None\<close> for \<open>-1\<close>.\<close>

fun IndexByte :: "string \<Rightarrow> char \<Rightarrow> nat option" where
  "IndexByte [] c = None"
| "IndexByte (x # xs) c = (if x = c then Some 0 else map_option Suc (IndexByte xs c))"

text \<open>
  \<open>strings.Replace(strconv.Quote(string(p)), `"`, ``, -1)\<close>, byte by byte: \<open>Quote\<close>
  wraps the text in double quotes and escapes it, and the replacement then deletes every
  double quote, so that an escaped quote leaves its backslash behind. A byte from 0x80 on
  is written here as \<open>\xHH\<close>, which is what \<open>Quote\<close> does for a byte that is not valid
  UTF-8; a valid multi-byte rune is kept or written as \<open>\u\<close>/\<open>\U\<close> by Go. Either way the
  text holds a character that is no digit and no sign (see \<open>Atoi_quote_strip\<close> below).
\<close>

definition hex_digit :: "nat \<Rightarrow> char" where
  "hex_digit n = ''0123456789abcdef'' ! n"

definition quote_byte :: "char \<Rightarrow> string" where
  "quote_byte c =
     (let n = (of_char c :: nat)
      in if c = CHR 0x22 then [BSL]
         else if c = BSL then [BSL, BSL]
         else if 32 \<le> n \<and> n < 127 then [c]
         else if n = 7 then [BSL, CHR ''a'']
         else if n = 8 then [BSL, CHR ''b'']
         else if n = 12 then [BSL, CHR ''f'']
         else if n = 10 then [BSL, CHR ''n'']
         else if n = 13 then [BSL, CHR ''r'']
         else if n = 9 then [BSL, CHR ''t'']
         else if n = 11 then [BSL, CHR ''v'']
         else [BSL, CHR ''x'', hex_digit (n div 16), hex_digit (n mod 16)])"

definition quote_strip :: "string \<Rightarrow> string" where
  "quote_strip p = concat (map quote_byte p)"

text \<open>
  The loop of \<open>parse\<close> over \<open>buf = c.recv_buf.Bytes()\<close>, with its variables \<open>offset\<close> and
  \<open>resp\<close>. A response is a \<open>string list option\<close>: \<open>None\<close> is Go's \<open>nil\<close> slice, that
  \<open>parse\<close> returns on a malformed length, \<open>Some []\<close> the empty slice \<open>[]string{}\<close> it
  returns when the frame is not complete. The second component is the number of bytes
  that \<open>c.recv_buf.Next\<close> consumes.

  \<open>offset + size\<close> is a 64-bit signed addition: beyond \<open>max_int\<close> it wraps to a negative
  number, the test \<open>offset+size >= c.recv_buf.Len()\<close> is then false, and the slice
  expression \<open>buf[offset : offset+size]\<close> panics.
\<close>

function parse_loop :: "string \<Rightarrow> nat \<Rightarrow> string list \<Rightarrow> fault + (string list option \<times> nat)" where
  "parse_loop buf offset resp =
     (if length buf < offset then Inr (Some [], 0)
      else
        (case IndexByte (drop offset buf) NL of
           None \<Rightarrow> Inr (Some [], 0)
         | Some Idx \<Rightarrow>
             (let p = take Idx (drop offset buf);
                  offset' = offset + Idx + 1
              in if p = [] \<or> p = [CR] then
                   (if resp = [] then parse_loop buf offset' resp
                    else Inr (Some resp, offset'))
                 else
                   (case Atoi (quote_strip p) of
                      (sz, Some err) \<Rightarrow> Inr (None, 0)
                    | (sz, None) \<Rightarrow>
                        if sz < 0 then Inr (None, 0)
                        else if int offset' + sz > max_int then Inl PanicSlice
                        else if int offset' + sz \<ge> int (length buf) then Inr (Some [], 0)
                        else parse_loop buf (offset' + nat sz + 1)
                               (resp @ [take (nat sz) (drop offset' buf)])))))"
  by pat_completeness auto
termination
  by (relation "measure (\<lambda>(buf, offset, resp). Suc (length buf) - offset)") auto

declare parse_loop.simps [simp del]

text \<open>\<open>parse\<close>: the response and the receive buffer after the call.\<close>

definition parse :: "string \<Rightarrow> fault + (string list option \<times> string)" where
  "parse recv_buf =
     (case parse_loop recv_buf 0 [] of
        Inl e \<Rightarrow> Inl e
      | Inr (resp, n) \<Rightarrow> Inr (resp, drop n recv_buf))"

text \<open>
  The loop of \<open>tranfUnZip\<close> over the decompressed bytes. \<open>resp\<close> starts as the \<open>nil\<close>
  slice and \<open>append\<close> makes it a slice. With \<open>hiIdx\<close> beyond \<open>len(zipData)\<close> one of the
  two slice expressions panics: the first when \<open>hiIdx\<close> is beyond the capacity, the
  second, \<open>zipData[offset:]\<close>, otherwise.
\<close>

function unzip_loop :: "string \<Rightarrow> string list option \<Rightarrow> fault + string list option" where
  "unzip_loop zipData resp =
     (case IndexByte zipData NL of
        None \<Rightarrow> Inr resp
      | Some Idx \<Rightarrow>
          (case Atoi (take Idx zipData) of
             (sz, err) \<Rightarrow>
               if err \<noteq> None \<or> sz < 0 then unzip_loop (drop (Idx + 1) zipData) resp
               else
                 (let hiIdx = nat sz + Idx + 1
                  in if hiIdx > length zipData then Inl PanicSlice
                     else unzip_loop (drop hiIdx zipData)
                            (Some ((case resp of None \<Rightarrow> [] | Some r \<Rightarrow> r)
                                   @ [take (nat sz) (drop (Idx + 1) zipData)])))))"
  by pat_completeness auto
termination
proof (relation "measure (\<lambda>(zipData, resp). length zipData)")
  show "wf (measure (\<lambda>(zipData, resp). length zipData))"
    by simp
next
  fix zipData :: string and resp :: "string list option" and Idx x sz err
  assume "IndexByte zipData NL = Some Idx"
  then have "zipData \<noteq> []"
    by (cases zipData) auto
  then show "((drop (Idx + 1) zipData, resp), zipData, resp)
             \<in> measure (\<lambda>(zipData, resp). length zipData)"
    by simp
next
  fix zipData :: string and resp :: "string list option" and Idx x sz err hiIdx
  assume "IndexByte zipData NL = Some Idx" and "hiIdx = nat sz + Idx + 1"
  then have "zipData \<noteq> []" and "0 < hiIdx"
    by (cases zipData; auto)+
  then show "((drop hiIdx zipData,
               Some ((case resp of None \<Rightarrow> [] | Some r \<Rightarrow> r)
                     @ [take (nat sz) (drop (Idx + 1) zipData)])),
              zipData, resp)
             \<in> measure (\<lambda>(zipData, resp). length zipData)"
    by simp
qed

declare unzip_loop.simps [simp del]

text \<open>
  \<open>tranfUnZip\<close>: a reader that \<open>gzip.NewReader\<close> refuses is only logged, and
  \<open>ioutil.ReadAll\<close> then dereferences the nil reader; a read error returns \<open>nil\<close>.
\<close>

definition tranfUnZip :: "lib \<Rightarrow> string \<Rightarrow> fault + string list option" where
  "tranfUnZip L data =
     (case gunzip L data of
        GzBadHeader \<Rightarrow> Inl PanicNilDeref
      | GzReadError \<Rightarrow> Inr None
      | GzData zipData \<Rightarrow> unzip_loop zipData None)"

text \<open>
  One call of the connection's \<open>Read\<close>, as the environment decides it: an error, or the
  bytes read.
\<close>

datatype read_result = ReadErr | ReadBytes string

text \<open>
  What a call of \<open>recv\<close> comes to: its two results \<open>(resp, err)\<close>, a panic, or no return
  at all (\<open>RecvBlocked\<close>: the frame is not complete and the connection has nothing more
  to read).
\<close>

datatype recv_outcome =
    RecvReturn "string list option" "fault option"
  | RecvPanic fault
  | RecvBlocked

text \<open>The body of the loop of \<open>recv\<close> up to the read: \<open>None\<close> when it goes on to read.\<close>

definition recv_body :: "lib \<Rightarrow> string \<Rightarrow> (recv_outcome \<times> string) option" where
  "recv_body L recv_buf =
     (case parse recv_buf of
        Inl e \<Rightarrow> Some (RecvPanic e, recv_buf)
      | Inr (resp, recv_buf') \<Rightarrow>
          (case resp of
             None \<Rightarrow> Some (RecvReturn None None, recv_buf')
           | Some [] \<Rightarrow> None
           | Some (r0 # rs) \<Rightarrow>
               if r0 = ''zip'' then
                 (case rs of
                    [] \<Rightarrow> Some (RecvPanic PanicIndex, recv_buf')
                  | r1 # _ \<Rightarrow>
                      (case b64dec L r1 of
                         None \<Rightarrow> Some (RecvReturn None (Some Base64Error), recv_buf')
                       | Some zipData \<Rightarrow>
                           (case tranfUnZip L zipData of
                              Inl e \<Rightarrow> Some (RecvPanic e, recv_buf')
                            | Inr resp' \<Rightarrow> Some (RecvReturn resp' None, recv_buf'))))
               else Some (RecvReturn (Some (r0 # rs)) None, recv_buf')))"

text \<open>
  \<open>recv\<close> on a receive buffer and the reads to come: the outcome, the receive buffer and the
  reads left.
\<close>

fun recv :: "lib \<Rightarrow> string \<Rightarrow> read_result list \<Rightarrow> recv_outcome \<times> string \<times> read_result list" where
  "recv L recv_buf reads =
     (case recv_body L recv_buf of
        Some (out, recv_buf') \<Rightarrow> (out, recv_buf', reads)
      | None \<Rightarrow>
          (case reads of
             [] \<Rightarrow> (RecvBlocked, recv_buf, [])
           | ReadErr # reads' \<Rightarrow> (RecvReturn None (Some IoError), recv_buf, reads')
           | ReadBytes tmp # reads' \<Rightarrow> recv L (recv_buf @ tmp) reads'))"

declare recv.simps [simp del]

section \<open>Frames and parts, to state what the encoder and the parser do\<close>

text \<open>The bytes of a sequence of parts: each as length, newline, bytes, newline.\<close>

definition frame_bytes :: "string list \<Rightarrow> string" where
  "frame_bytes ps = foldl write_part [] ps"

text \<open>
  The parts that one argument becomes in the cases of the type switch that write to one
  buffer only; \<open>direct_arg\<close> holds for the arguments of these cases.
\<close>

fun arg_parts :: "lib \<Rightarrow> arg \<Rightarrow> string list" where
  "arg_parts L (AStr s) = [s]"
| "arg_parts L (ABytes b) = [b]"
| "arg_parts L (AStrList ss) = ss"
| "arg_parts L (AInt n) = [Itoa (sint n)]"
| "arg_parts L (AInt64 n) = [Itoa (sint n)]"
| "arg_parts L (AFloat64 x) = [fmt_f L x]"
| "arg_parts L (ABool b) = [if b then ''1'' else ''0'']"
| "arg_parts L ANil = [[]]"
| "arg_parts L (AIfaces xs) = []"
| "arg_parts L AOther = []"

fun direct_arg :: "arg \<Rightarrow> bool" where
  "direct_arg (AIfaces xs) = False"
| "direct_arg AOther = False"
| "direct_arg a = True"

definition args_parts :: "lib \<Rightarrow> arg list \<Rightarrow> string list" where
  "args_parts L args = concat (map (arg_parts L) args)"

section \<open>The encoder on concrete argument vectors\<close>

lemma digit_char_numerals:
  "digit_char 0 = CHR ''0''" "digit_char 1 = CHR ''1''" "digit_char (Suc 0) = CHR ''1''"
  "digit_char 2 = CHR ''2''" "digit_char 3 = CHR ''3''" "digit_char 4 = CHR ''4''"
  "digit_char 5 = CHR ''5''" "digit_char 6 = CHR ''6''" "digit_char 7 = CHR ''7''"
  "digit_char 8 = CHR ''8''" "digit_char 9 = CHR ''9''"
  by code_simp+

text \<open>
  C2. Without compression, \<open>["set","k","v"]\<close> is encoded as the bytes
  \<open>3\nset\n1\nk\n1\nv\n\n\<close>: every part as its decimal length, a newline, its bytes and a
  newline, in the order of the arguments, and one more newline at the end; the bytes are
  not the reordered \<open>1\nk\n1\nv\n1\n3\nset\n\n\<close>.
\<close>

theorem C2_send_plain_set:
  "Send L False [AStr ''set'', AStr ''k'', AStr ''v'']
     = Inr ''3\<newline>set\<newline>1\<newline>k\<newline>1\<newline>v\<newline>\<newline>''
   \<and> Send L False [AStr ''set'', AStr ''k'', AStr ''v'']
     \<noteq> Inr ''1\<newline>k\<newline>1\<newline>v\<newline>1\<newline>3\<newline>set\<newline>\<newline>''"
  by (simp add: Send_def write_part_def Itoa_def dec_digits.simps digit_char_numerals NL_def)

section \<open>Decimal numbers and the search for a byte\<close>

lemma IndexByte_None_iff: "IndexByte xs c = None \<longleftrightarrow> c \<notin> set xs"
  by (induction xs) auto

lemma IndexByte_first: "c \<notin> set xs \<Longrightarrow> IndexByte (xs @ c # ys) c = Some (length xs)"
  by (induction xs) auto

lemma IndexByte_less: "IndexByte xs c = Some i \<Longrightarrow> i < length xs"
  by (induction xs arbitrary: i) (auto split: if_splits)

lemma IndexByte_split:
  "IndexByte xs c = Some i \<Longrightarrow> xs = take i xs @ c # drop (Suc i) xs \<and> c \<notin> set (take i xs)"
proof (induction xs arbitrary: i)
  case Nil
  then show ?case by simp
next
  case (Cons x xs)
  show ?case
  proof (cases "x = c")
    case True
    with Cons.prems show ?thesis by simp
  next
    case False
    with Cons.prems obtain j where j: "IndexByte xs c = Some j" "i = Suc j"
      by auto
    from Cons.IH [OF j(1)] j(2) False show ?thesis by simp
  qed
qed

lemma digit_val_digit_char: "d < 10 \<Longrightarrow> digit_val (digit_char d) = d"
  by (simp add: digit_val_def digit_char_def)

lemma is_digit_digit_char: "d < 10 \<Longrightarrow> is_digit (digit_char d)"
  by (simp add: is_digit_def digit_char_def)

lemma dec_digits_all_digits: "list_all is_digit (dec_digits n)"
proof (induction n rule: dec_digits.induct)
  case (1 n)
  then show ?case
    by (cases "n < 10") (simp_all add: dec_digits.simps [of n] is_digit_digit_char)
qed

lemma dec_digits_nonempty: "dec_digits n \<noteq> []"
  by (simp add: dec_digits.simps [of n])

lemma digits_val_snoc: "digits_val (ds @ [c]) = 10 * digits_val ds + digit_val c"
  by (simp add: digits_val_def)

lemma digits_val_dec_digits: "digits_val (dec_digits n) = n"
proof (induction n rule: dec_digits.induct)
  case (1 n)
  show ?case
  proof (cases "n < 10")
    case True
    then show ?thesis
      by (simp add: dec_digits.simps [of n] digits_val_def digit_val_digit_char)
  next
    case False
    with 1 show ?thesis
      by (simp add: dec_digits.simps [of n] digits_val_snoc digit_val_digit_char)
  qed
qed

lemma is_digit_not_special:
  assumes "is_digit c"
  shows "c \<noteq> NL" "c \<noteq> CR" "c \<noteq> BSL" "c \<noteq> CHR 0x22" "c \<noteq> CHR ''+''" "c \<noteq> CHR ''-''"
  using assms by (auto simp: is_digit_def NL_def CR_def BSL_def)

lemma quote_byte_digit: "is_digit c \<Longrightarrow> quote_byte c = [c]"
  by (auto simp: quote_byte_def is_digit_def BSL_def Let_def)

lemma quote_strip_digits: "list_all is_digit ds \<Longrightarrow> quote_strip ds = ds"
  by (induction ds) (simp_all add: quote_strip_def quote_byte_digit)

lemma ParseInt_digits:
  assumes "list_all is_digit ds" "ds \<noteq> []" "digits_val ds < 2 ^ 63"
  shows "ParseInt ds = (int (digits_val ds), None)"
proof -
  from assms obtain c r where ds: "ds = c # r"
    by (cases ds) auto
  with assms(1) have "is_digit c" by simp
  then have "c \<noteq> CHR ''+''" "c \<noteq> CHR ''-''"
    by (rule is_digit_not_special)+
  moreover have "\<not> (2 ^ 63 \<le> int (digits_val ds))"
    using assms(3) by (metis linorder_not_le of_nat_less_iff of_nat_numeral of_nat_power)
  ultimately show ?thesis
    using assms(1) ds by (simp add: ParseInt_def Let_def)
qed

lemma Atoi_dec_digits: "n < 2 ^ 63 \<Longrightarrow> Atoi (dec_digits n) = (int n, None)"
  by (simp add: Atoi_def ParseInt_digits dec_digits_all_digits dec_digits_nonempty
      digits_val_dec_digits)

lemma Itoa_nat: "Itoa (int n) = dec_digits n"
  by (simp add: Itoa_def)

lemma NL_notin_dec_digits: "NL \<notin> set (dec_digits n)"
  using dec_digits_all_digits [of n] is_digit_not_special(1)
  by (auto simp: list_all_iff)

lemma dec_digits_not_CR: "dec_digits n \<noteq> [CR]"
proof
  assume "dec_digits n = [CR]"
  with dec_digits_all_digits [of n] have "is_digit CR"
    by simp
  then show False
    using is_digit_not_special(2) by blast
qed

lemma ParseInt_bad_char:
  assumes "c \<in> set t" "\<not> is_digit c" "c \<noteq> CHR ''+''" "c \<noteq> CHR ''-''"
  shows "ParseInt t = (0, Some ErrSyntax)"
proof (cases t)
  case Nil
  then show ?thesis by (simp add: ParseInt_def)
next
  case (Cons c0 r)
  show ?thesis
  proof (cases "c0 = CHR ''+'' \<or> c0 = CHR ''-''")
    case True
    with assms Cons have "c \<in> set r" by auto
    with assms(2) have "\<not> list_all is_digit r"
      by (auto simp: list_all_iff)
    with True Cons show ?thesis
      by (auto simp: ParseInt_def Let_def)
  next
    case False
    from assms(1,2) have "\<not> list_all is_digit t"
      by (auto simp: list_all_iff)
    with False Cons show ?thesis
      by (auto simp: ParseInt_def Let_def)
  qed
qed

lemma quote_byte_cases: "quote_byte c = [c] \<or> BSL \<in> set (quote_byte c)"
  by (simp add: quote_byte_def Let_def)

lemma quote_byte_sign: "quote_byte (CHR ''+'') = ''+''" "quote_byte (CHR ''-'') = ''-''"
  by (simp_all add: quote_byte_def Let_def BSL_def)

lemma BSL_bad: "\<not> is_digit BSL" "BSL \<noteq> CHR ''+''" "BSL \<noteq> CHR ''-''"
  by (simp_all add: is_digit_def BSL_def)

lemma quote_strip_plain: "\<forall>c\<in>set l. quote_byte c = [c] \<Longrightarrow> quote_strip l = l"
  by (induction l) (simp_all add: quote_strip_def)

lemma Atoi_quote_strip: "Atoi (quote_strip l) = Atoi l"
proof (cases "\<forall>c\<in>set l. quote_byte c = [c]")
  case True
  then show ?thesis by (simp add: quote_strip_plain)
next
  case False
  then obtain c where c: "c \<in> set l" "quote_byte c \<noteq> [c]"
    by blast
  then have "BSL \<in> set (quote_byte c)"
    using quote_byte_cases [of c] by simp
  with c(1) have "BSL \<in> set (quote_strip l)"
    by (auto simp: quote_strip_def)
  then have 1: "ParseInt (quote_strip l) = (0, Some ErrSyntax)"
    by (rule ParseInt_bad_char) (rule BSL_bad)+
  from c(2) have "\<not> is_digit c" "c \<noteq> CHR ''+''" "c \<noteq> CHR ''-''"
    using quote_byte_digit quote_byte_sign by auto
  with c(1) have "ParseInt l = (0, Some ErrSyntax)"
    by (rule ParseInt_bad_char)
  with 1 show ?thesis by (simp add: Atoi_def)
qed

lemma write_part_append: "write_part buf s = buf @ write_part [] s"
  by (simp add: write_part_def)

lemma foldl_write_part: "foldl write_part buf ps = buf @ foldl write_part [] ps"
proof (induction ps arbitrary: buf)
  case Nil
  then show ?case by simp
next
  case (Cons s ps)
  show ?case
    using Cons.IH [of "write_part buf s"] Cons.IH [of "write_part [] s"]
    by (simp add: write_part_append [of buf])
qed

section \<open>The parser on well-formed and on malformed bytes\<close>

lemma frame_bytes_Nil: "frame_bytes [] = []"
  by (simp add: frame_bytes_def)

lemma frame_bytes_Cons: "frame_bytes (s # ps) = write_part [] s @ frame_bytes ps"
  using foldl_write_part [of "write_part [] s" ps] by (simp add: frame_bytes_def)

lemma frame_bytes_append: "frame_bytes (ps @ qs) = frame_bytes ps @ frame_bytes qs"
  by (induction ps) (simp_all add: frame_bytes_Nil frame_bytes_Cons)

lemma write_part_Nil: "write_part [] s = dec_digits (length s) @ NL # s @ [NL]"
  by (simp add: write_part_def Itoa_nat)

lemma length_write_part: "length (write_part [] s) = length (dec_digits (length s)) + length s + 2"
  by (simp add: write_part_Nil)

text \<open>One iteration of the loop of \<open>parse\<close> over a complete part.\<close>

lemma parse_loop_part:
  assumes buf: "buf = pre @ write_part [] s @ rest"
    and len: "int (length buf) \<le> max_int"
  shows "parse_loop buf (length pre) resp
         = parse_loop buf (length pre + length (write_part [] s)) (resp @ [s])"
proof -
  let ?d = "dec_digits (length s)"
  have drop: "drop (length pre) buf = ?d @ NL # (s @ NL # rest)"
    by (simp add: buf write_part_Nil)
  have idx: "IndexByte (drop (length pre) buf) NL = Some (length ?d)"
    unfolding drop by (rule IndexByte_first) (rule NL_notin_dec_digits)
  have p: "take (length ?d) (drop (length pre) buf) = ?d"
    by (simp add: drop)
  have "length s < length buf"
    by (simp add: buf write_part_Nil)
  with len have "int (length s) < 2 ^ 63"
    by (simp add: max_int_def)
  then have "length s < 2 ^ 63"
    by (metis of_nat_less_iff of_nat_numeral of_nat_power)
  then have atoi: "Atoi (quote_strip ?d) = (int (length s), None)"
    by (simp add: quote_strip_digits dec_digits_all_digits Atoi_dec_digits)
  have lb: "length buf = length pre + length ?d + length s + 2 + length rest"
    by (simp add: buf write_part_Nil)
  have data: "take (length s) (drop (Suc (length pre + length ?d)) buf) = s"
    by (simp add: buf write_part_Nil)
  show ?thesis
    using len
    by (subst parse_loop.simps)
      (simp add: idx p atoi dec_digits_nonempty dec_digits_not_CR lb data length_write_part
        Let_def add.assoc)
qed

lemma parse_loop_parts:
  assumes "buf = pre @ frame_bytes ps @ rest" and "int (length buf) \<le> max_int"
  shows "parse_loop buf (length pre) resp
         = parse_loop buf (length pre + length (frame_bytes ps)) (resp @ ps)"
  using assms
proof (induction ps arbitrary: pre resp)
  case Nil
  then show ?case by (simp add: frame_bytes_Nil)
next
  case (Cons s ps)
  have 1: "buf = pre @ write_part [] s @ (frame_bytes ps @ rest)"
    using Cons.prems(1) by (simp add: frame_bytes_Cons)
  have 2: "buf = (pre @ write_part [] s) @ frame_bytes ps @ rest"
    using 1 by simp
  have "parse_loop buf (length pre) resp
        = parse_loop buf (length (pre @ write_part [] s)) (resp @ [s])"
    using parse_loop_part [OF 1 Cons.prems(2)] by simp
  also have "\<dots> = parse_loop buf (length (pre @ write_part [] s) + length (frame_bytes ps))
                      ((resp @ [s]) @ ps)"
    by (rule Cons.IH [OF 2 Cons.prems(2)])
  finally show ?case
    by (simp add: frame_bytes_Cons add.assoc)
qed

text \<open>The iteration of the loop of \<open>parse\<close> on an empty line, and on a line of one \<open>\r\<close>.\<close>

lemma parse_loop_blank:
  assumes "buf = pre @ NL # rest"
  shows "parse_loop buf (length pre) resp
         = (if resp = [] then parse_loop buf (length pre + 1) resp
            else Inr (Some resp, length pre + 1))"
proof -
  have "IndexByte (drop (length pre) buf) NL = Some 0"
    by (simp add: assms)
  then show ?thesis
    by (subst parse_loop.simps) (simp add: assms)
qed

lemma parse_loop_blank_CR:
  assumes "buf = pre @ CR # NL # rest"
  shows "parse_loop buf (length pre) resp
         = (if resp = [] then parse_loop buf (length pre + 2) resp
            else Inr (Some resp, length pre + 2))"
proof -
  have "IndexByte (drop (length pre) buf) NL = Some 1"
    by (simp add: assms NL_def CR_def)
  then show ?thesis
    by (subst parse_loop.simps) (simp add: assms)
qed

text \<open>The iteration on a line that is no length.\<close>

lemma parse_loop_bad_line:
  assumes "buf = pre @ l @ NL # rest" and "NL \<notin> set l" and "l \<noteq> []" and "l \<noteq> [CR]"
    and "snd (Atoi l) \<noteq> None \<or> fst (Atoi l) < 0"
  shows "parse_loop buf (length pre) resp = Inr (None, 0)"
proof -
  have "IndexByte (drop (length pre) buf) NL = Some (length l)"
    using assms(1,2) by (simp add: IndexByte_first)
  moreover have "take (length l) (drop (length pre) buf) = l"
    by (simp add: assms(1))
  ultimately show ?thesis
    using assms(3,4,5)
    by (subst parse_loop.simps)
      (auto simp: Atoi_quote_strip Let_def split: prod.splits option.splits)
qed

text \<open>The loop stops for lack of bytes: no newline left.\<close>

lemma parse_loop_no_newline:
  assumes "NL \<notin> set (drop offset buf)"
  shows "parse_loop buf offset resp = Inr (Some [], 0)"
  using assms by (subst parse_loop.simps) (simp add: IndexByte_None_iff [symmetric])

lemma parse_frame:
  assumes "ps \<noteq> []" and "int (length (frame_bytes ps @ NL # rest)) \<le> max_int"
  shows "parse (frame_bytes ps @ NL # rest) = Inr (Some ps, rest)"
proof -
  let ?buf = "frame_bytes ps @ NL # rest"
  have "parse_loop ?buf (length ([] :: string)) [] 
        = parse_loop ?buf (length ([] :: string) + length (frame_bytes ps)) ([] @ ps)"
    by (rule parse_loop_parts [OF _ assms(2)]) simp
  also have "\<dots> = Inr (Some ps, length (frame_bytes ps) + 1)"
    using parse_loop_blank [of ?buf "frame_bytes ps" rest ps] assms(1) by simp
  finally show ?thesis
    by (simp add: parse_def)
qed

lemma parse_frame_CR:
  assumes "ps \<noteq> []" and "int (length (frame_bytes ps @ CR # NL # rest)) \<le> max_int"
  shows "parse (frame_bytes ps @ CR # NL # rest) = Inr (Some ps, rest)"
proof -
  let ?buf = "frame_bytes ps @ CR # NL # rest"
  have "parse_loop ?buf (length ([] :: string)) [] 
        = parse_loop ?buf (length ([] :: string) + length (frame_bytes ps)) ([] @ ps)"
    by (rule parse_loop_parts [OF _ assms(2)]) simp
  also have "\<dots> = Inr (Some ps, length (frame_bytes ps) + 2)"
    using parse_loop_blank_CR [of ?buf "frame_bytes ps" rest ps] assms(1) by simp
  finally show ?thesis
    by (simp add: parse_def)
qed

lemma parse_bad_line:
  assumes "NL \<notin> set l" and "l \<noteq> []" and "l \<noteq> [CR]"
    and "snd (Atoi l) \<noteq> None \<or> fst (Atoi l) < 0"
    and "int (length (frame_bytes ps @ l @ NL # rest)) \<le> max_int"
  shows "parse (frame_bytes ps @ l @ NL # rest) = Inr (None, frame_bytes ps @ l @ NL # rest)"
proof -
  let ?buf = "frame_bytes ps @ l @ NL # rest"
  have "parse_loop ?buf (length ([] :: string)) [] 
        = parse_loop ?buf (length ([] :: string) + length (frame_bytes ps)) ([] @ ps)"
    by (rule parse_loop_parts [OF _ assms(5)]) simp
  also have "\<dots> = Inr (None, 0)"
    using parse_loop_bad_line [of ?buf "frame_bytes ps" l rest ps] assms(1-4) by simp
  finally show ?thesis
    by (simp add: parse_def)
qed

text \<open>The loop of \<open>tranfUnZip\<close> over complete parts.\<close>

lemma unzip_loop_Nil: "unzip_loop [] resp = Inr resp"
  by (subst unzip_loop.simps) simp

lemma unzip_loop_blank: "unzip_loop (NL # rest) resp = unzip_loop rest resp"
  by (subst unzip_loop.simps) (simp add: Atoi_def ParseInt_def)

lemma unzip_loop_part:
  assumes "length s < 2 ^ 63"
  shows "unzip_loop (write_part [] s @ rest) resp
         = unzip_loop rest (Some ((case resp of None \<Rightarrow> [] | Some r \<Rightarrow> r) @ [s]))"
proof -
  let ?d = "dec_digits (length s)"
  define z where "z = write_part [] s @ rest"
  have z: "z = ?d @ NL # (s @ NL # rest)"
    by (simp add: z_def write_part_Nil)
  have idx: "IndexByte z NL = Some (length ?d)"
    unfolding z by (rule IndexByte_first) (rule NL_notin_dec_digits)
  have p: "take (length ?d) z = ?d"
    by (simp add: z)
  have atoi: "Atoi ?d = (int (length s), None)"
    using assms by (rule Atoi_dec_digits)
  have d1: "drop (Suc (length s + length ?d)) z = NL # rest"
    by (simp add: z)
  have d2: "take (length s) (drop (Suc (length ?d)) z) = s"
    by (simp add: z)
  have lz: "length z = length ?d + length s + 2 + length rest"
    by (simp add: z)
  have "unzip_loop z resp
        = unzip_loop (NL # rest) (Some ((case resp of None \<Rightarrow> [] | Some r \<Rightarrow> r) @ [s]))"
    by (subst unzip_loop.simps) (simp add: idx p atoi d1 d2 lz Let_def)
  then show ?thesis
    by (simp add: unzip_loop_blank z_def)
qed

lemma unzip_loop_parts:
  assumes "\<forall>s\<in>set ps. length s < 2 ^ 63"
  shows "unzip_loop (frame_bytes ps @ rest) resp
         = unzip_loop rest (if ps = [] then resp
                            else Some ((case resp of None \<Rightarrow> [] | Some r \<Rightarrow> r) @ ps))"
  using assms
proof (induction ps arbitrary: resp)
  case Nil
  then show ?case by (simp add: frame_bytes_Nil)
next
  case (Cons s ps)
  then have "length s < 2 ^ 63" and rest: "\<forall>s\<in>set ps. length s < 2 ^ 63"
    by simp_all
  then have "unzip_loop (frame_bytes (s # ps) @ rest) resp
             = unzip_loop (frame_bytes ps @ rest)
                 (Some ((case resp of None \<Rightarrow> [] | Some r \<Rightarrow> r) @ [s]))"
    using unzip_loop_part [of s "frame_bytes ps @ rest" resp] by (simp add: frame_bytes_Cons)
  then show ?case
    using Cons.IH [OF rest] by simp
qed

text \<open>The loops of \<open>Send\<close> on arguments that are written to one buffer.\<close>

lemma args_parts_Cons: "args_parts L (a # args) = arg_parts L a @ args_parts L args"
  by (simp add: args_parts_def)

lemma send_plain_loop_direct:
  "list_all direct_arg args \<Longrightarrow>
   send_plain_loop L args buf = Inr (buf @ frame_bytes (args_parts L args))"
proof (induction args arbitrary: buf)
  case Nil
  then show ?case by (simp add: args_parts_def frame_bytes_Nil)
next
  case (Cons a args)
  then have IH: "\<And>buf. send_plain_loop L args buf = Inr (buf @ frame_bytes (args_parts L args))"
    by simp
  from Cons.prems have "direct_arg a" by simp
  then show ?case
    by (cases a)
      (simp_all add: IH args_parts_Cons frame_bytes_append frame_bytes_Cons frame_bytes_Nil
        write_part_append [of buf] foldl_write_part [of buf] frame_bytes_def [symmetric])
qed

lemma send_zip_loop_direct:
  "list_all direct_arg args \<Longrightarrow>
   send_zip_loop L args buf w = Inr (buf, w @ frame_bytes (args_parts L args))"
proof (induction args arbitrary: w)
  case Nil
  then show ?case by (simp add: args_parts_def frame_bytes_Nil)
next
  case (Cons a args)
  then have IH: "\<And>w. send_zip_loop L args buf w = Inr (buf, w @ frame_bytes (args_parts L args))"
    by simp
  from Cons.prems have "direct_arg a" by simp
  then show ?case
    by (cases a)
      (simp_all add: IH args_parts_Cons frame_bytes_append frame_bytes_Cons frame_bytes_Nil
        write_part_append [of w] foldl_write_part [of w] frame_bytes_def [symmetric])
qed

theorem C1_counterexample:
  "Send stored_lib True [AStr ''hset'', AStr ''h'', AStr ''k'', AStr ''v'']
   \<noteq> Inr (''1\<newline>3\<newline>3\<newline>zip\<newline>''
           @ Itoa (int (length (b64enc stored_lib (gzip stored_lib
                 ''4\<newline>hset\<newline>1\<newline>h\<newline>1\<newline>k\<newline>1\<newline>v\<newline>''))))
           @ [NL]
           @ b64enc stored_lib (gzip stored_lib
                 ''4\<newline>hset\<newline>1\<newline>h\<newline>1\<newline>k\<newline>1\<newline>v\<newline>'')
           @ [NL, NL])"
  by code_simp

theorem C1_send_zip_frame:
  "(list_all direct_arg args \<longrightarrow>
      Send L True args
        = Inr (''3\<newline>zip\<newline>''
               @ Itoa (int (length (b64enc L (gzip L (frame_bytes (args_parts L args))))))
               @ [NL]
               @ b64enc L (gzip L (frame_bytes (args_parts L args)))
               @ [NL, NL]))
   \<and> frame_bytes (args_parts L [AStr ''hset'', AStr ''h'', AStr ''k'', AStr ''v''])
       = ''4\<newline>hset\<newline>1\<newline>h\<newline>1\<newline>k\<newline>1\<newline>v\<newline>''"
proof
  show "list_all direct_arg args \<longrightarrow>
      Send L True args
        = Inr (''3\<newline>zip\<newline>''
               @ Itoa (int (length (b64enc L (gzip L (frame_bytes (args_parts L args))))))
               @ [NL]
               @ b64enc L (gzip L (frame_bytes (args_parts L args)))
               @ [NL, NL])"
    by (simp add: Send_def send_zip_loop_direct Let_def NL_def)
  show "frame_bytes (args_parts L [AStr ''hset'', AStr ''h'', AStr ''k'', AStr ''v''])
       = ''4\<newline>hset\<newline>1\<newline>h\<newline>1\<newline>k\<newline>1\<newline>v\<newline>''"
    by (simp add: frame_bytes_def args_parts_def write_part_def Itoa_def dec_digits.simps
        digit_char_numerals NL_def)
qed

theorem C1_send_zip_frame_witness:
  "list_all direct_arg [AStr ''hset'', AStr ''h'', AStr ''k'', AStr ''v'']
   \<and> Send stored_lib True [AStr ''hset'', AStr ''h'', AStr ''k'', AStr ''v'']
       = Inr ''3\<newline>zip\<newline>21\<newline>GZ4\<newline>hset\<newline>1\<newline>h\<newline>1\<newline>k\<newline>1\<newline>v\<newline>\<newline>\<newline>''"
  using C1_send_zip_frame [of "[AStr ''hset'', AStr ''h'', AStr ''k'', AStr ''v'']" stored_lib]
  by (simp add: stored_lib_def Itoa_def dec_digits.simps digit_char_numerals NL_def)

lemma length_part_less_frame: "s \<in> set ps \<Longrightarrow> length s < length (frame_bytes ps)"
  by (induction ps) (auto simp: frame_bytes_Cons write_part_Nil)

lemma zip_header: "''3\<newline>zip\<newline>'' = write_part [] ''zip''"
  by (simp add: write_part_def Itoa_def dec_digits.simps digit_char_numerals NL_def)

lemma recv_plain_frame:
  assumes "ps \<noteq> []" and "hd ps \<noteq> ''zip''" and "int (length (frame_bytes ps @ [NL])) \<le> max_int"
  shows "recv L (frame_bytes ps @ [NL]) reads = (RecvReturn (Some ps) None, [], reads)"
proof -
  from assms(1,2) obtain r0 rs where ps: "ps = r0 # rs" "r0 \<noteq> ''zip''"
    by (cases ps) auto
  have "parse (frame_bytes ps @ [NL]) = Inr (Some ps, [])"
    using parse_frame [OF assms(1), of "[]"] assms(3) by simp
  then have "recv_body L (frame_bytes ps @ [NL]) = Some (RecvReturn (Some ps) None, [])"
    using ps by (simp add: recv_body_def)
  then show ?thesis
    by (simp add: recv.simps)
qed

lemma recv_zip_frame:
  assumes gz: "\<forall>d. gunzip L (gzip L d) = GzData d" and b64: "\<forall>d. b64dec L (b64enc L d) = Some d"
    and ps: "ps \<noteq> []" "\<forall>s\<in>set ps. length s < 2 ^ 63"
    and len: "int (length (frame_bytes [''zip'', b64enc L (gzip L (frame_bytes ps))] @ [NL])) \<le> max_int"
  shows "recv L (frame_bytes [''zip'', b64enc L (gzip L (frame_bytes ps))] @ [NL]) reads
         = (RecvReturn (Some ps) None, [], reads)"
proof -
  let ?P = "b64enc L (gzip L (frame_bytes ps))"
  let ?buf = "frame_bytes [''zip'', ?P] @ [NL]"
  have "parse ?buf = Inr (Some [''zip'', ?P], [])"
    using parse_frame [of "[''zip'', ?P]" "[]"] len by simp
  moreover have "tranfUnZip L (gzip L (frame_bytes ps)) = Inr (Some ps)"
    using unzip_loop_parts [OF ps(2), of "[]" None] ps(1) gz
    by (simp add: tranfUnZip_def unzip_loop_Nil)
  ultimately have "recv_body L ?buf = Some (RecvReturn (Some ps) None, [])"
    using b64 by (simp add: recv_body_def)
  then show ?thesis
    by (simp add: recv.simps)
qed

theorem C3_counterexample:
  "Send stored_lib True [AStr ''zip''] = Inr ''3\<newline>zip\<newline>8\<newline>GZ3\<newline>zip\<newline>\<newline>\<newline>''
   \<and> Send stored_lib False [AStr ''zip''] = Inr ''3\<newline>zip\<newline>\<newline>''
   \<and> recv stored_lib ''3\<newline>zip\<newline>8\<newline>GZ3\<newline>zip\<newline>\<newline>\<newline>'' []
       = (RecvReturn (Some [''zip'']) None, [], [])
   \<and> recv stored_lib ''3\<newline>zip\<newline>\<newline>'' [] = (RecvPanic PanicIndex, [], [])"
  by code_simp

theorem C3_zip_roundtrip:
  assumes "\<forall>d. gunzip L (gzip L d) = GzData d" and "\<forall>d. b64dec L (b64enc L d) = Some d"
    and "list_all direct_arg args"
    and "args_parts L args \<noteq> []" and "hd (args_parts L args) \<noteq> ''zip''"
    and "Send L True args = Inr bz" and "Send L False args = Inr bp"
    and "int (length bz) \<le> max_int" and "int (length bp) \<le> max_int"
  shows "recv L bz reads = (RecvReturn (Some (args_parts L args)) None, [], reads)
         \<and> recv L bp reads = (RecvReturn (Some (args_parts L args)) None, [], reads)"
proof
  let ?ps = "args_parts L args"
  have bp: "bp = frame_bytes ?ps @ [NL]"
    using assms(3,7) by (simp add: Send_def send_plain_loop_direct)
  have bz: "bz = frame_bytes [''zip'', b64enc L (gzip L (frame_bytes ?ps))] @ [NL]"
    using assms(3,6)
    by (simp add: Send_def send_zip_loop_direct Let_def frame_bytes_Cons frame_bytes_Nil
        zip_header [symmetric]) (auto simp: write_part_def NL_def)
  have "\<forall>s\<in>set ?ps. int (length s) < 2 ^ 63"
  proof
    fix s assume "s \<in> set ?ps"
    then have "length s < length bp"
      using length_part_less_frame [of s ?ps] by (simp add: bp)
    with assms(9) show "int (length s) < 2 ^ 63"
      by (simp add: max_int_def)
  qed
  then have small: "\<forall>s\<in>set ?ps. length s < 2 ^ 63"
    by (metis of_nat_less_iff of_nat_numeral of_nat_power)
  show "recv L bz reads = (RecvReturn (Some ?ps) None, [], reads)"
    unfolding bz
    by (rule recv_zip_frame [OF assms(1,2,4) small]) (use assms(8) bz in simp)
  show "recv L bp reads = (RecvReturn (Some ?ps) None, [], reads)"
    unfolding bp
    by (rule recv_plain_frame [OF assms(4,5)]) (use assms(9) bp in simp)
qed

theorem C3_zip_roundtrip_witness:
  "(\<forall>d. gunzip stored_lib (gzip stored_lib d) = GzData d)
   \<and> (\<forall>d. b64dec stored_lib (b64enc stored_lib d) = Some d)
   \<and> list_all direct_arg [AStr ''hset'', AStr ''h'', AInt 7, ABool True]
   \<and> args_parts stored_lib [AStr ''hset'', AStr ''h'', AInt 7, ABool True] = [''hset'', ''h'', ''7'', ''1'']
   \<and> Send stored_lib True [AStr ''hset'', AStr ''h'', AInt 7, ABool True]
       = Inr ''3\<newline>zip\<newline>21\<newline>GZ4\<newline>hset\<newline>1\<newline>h\<newline>1\<newline>7\<newline>1\<newline>1\<newline>\<newline>\<newline>''
   \<and> Send stored_lib False [AStr ''hset'', AStr ''h'', AInt 7, ABool True]
       = Inr ''4\<newline>hset\<newline>1\<newline>h\<newline>1\<newline>7\<newline>1\<newline>1\<newline>\<newline>''
   \<and> recv stored_lib ''3\<newline>zip\<newline>21\<newline>GZ4\<newline>hset\<newline>1\<newline>h\<newline>1\<newline>7\<newline>1\<newline>1\<newline>\<newline>\<newline>'' []
       = (RecvReturn (Some [''hset'', ''h'', ''7'', ''1'']) None, [], [])
   \<and> recv stored_lib ''4\<newline>hset\<newline>1\<newline>h\<newline>1\<newline>7\<newline>1\<newline>1\<newline>\<newline>'' []
       = (RecvReturn (Some [''hset'', ''h'', ''7'', ''1'']) None, [], [])"
proof -
  let ?args = "[AStr ''hset'', AStr ''h'', AInt 7, ABool True]"
  let ?bz = "''3\<newline>zip\<newline>21\<newline>GZ4\<newline>hset\<newline>1\<newline>h\<newline>1\<newline>7\<newline>1\<newline>1\<newline>\<newline>\<newline>''"
  let ?bp = "''4\<newline>hset\<newline>1\<newline>h\<newline>1\<newline>7\<newline>1\<newline>1\<newline>\<newline>''"
  have h1: "\<forall>d. gunzip stored_lib (gzip stored_lib d) = GzData d"
    by (simp add: stored_lib_def stored_gunzip_def)
  have h2: "\<forall>d. b64dec stored_lib (b64enc stored_lib d) = Some d"
    by (simp add: stored_lib_def)
  have h3: "list_all direct_arg ?args"
    by simp
  have ps: "args_parts stored_lib ?args = [''hset'', ''h'', ''7'', ''1'']"
    by code_simp
  have h4: "args_parts stored_lib ?args \<noteq> []" and h5: "hd (args_parts stored_lib ?args) \<noteq> ''zip''"
    by (simp_all add: ps)
  have h6: "Send stored_lib True ?args = Inr ?bz"
    by code_simp
  have h7: "Send stored_lib False ?args = Inr ?bp"
    by code_simp
  have h8: "int (length ?bz) \<le> max_int" and h9: "int (length ?bp) \<le> max_int"
    by (simp_all add: max_int_def)
  from C3_zip_roundtrip [OF h1 h2 h3 h4 h5 h6 h7 h8 h9, of "[]"] h1 h2 h3 ps h6 h7
  show ?thesis by simp
qed

theorem C4_counterexample:
  "recv stored_lib ''-1\<newline>'' [ReadErr] = (RecvReturn None None, ''-1\<newline>'', [ReadErr])"
  by code_simp

theorem C4_bad_length_nil_no_error:
  assumes "NL \<notin> set l" and "l \<noteq> []" and "l \<noteq> [CR]"
    and "snd (Atoi l) \<noteq> None \<or> fst (Atoi l) < 0"
    and "int (length (frame_bytes ps @ l @ NL # rest)) \<le> max_int"
  shows "parse (frame_bytes ps @ l @ NL # rest) = Inr (None, frame_bytes ps @ l @ NL # rest)
         \<and> recv L (frame_bytes ps @ l @ NL # rest) reads
             = (RecvReturn None None, frame_bytes ps @ l @ NL # rest, reads)"
proof -
  have p: "parse (frame_bytes ps @ l @ NL # rest) = Inr (None, frame_bytes ps @ l @ NL # rest)"
    using assms by (rule parse_bad_line)
  then have "recv_body L (frame_bytes ps @ l @ NL # rest)
             = Some (RecvReturn None None, frame_bytes ps @ l @ NL # rest)"
    by (simp add: recv_body_def)
  then have "recv L (frame_bytes ps @ l @ NL # rest) reads
             = (RecvReturn None None, frame_bytes ps @ l @ NL # rest, reads)"
    by (simp add: recv.simps)
  with p show ?thesis by simp
qed

theorem C4_bad_length_nil_no_error_witness:
  "NL \<notin> set ''-1'' \<and> ''-1'' \<noteq> [] \<and> ''-1'' \<noteq> [CR] \<and> fst (Atoi ''-1'') < 0
   \<and> frame_bytes [''ok''] @ ''-1'' @ NL # ''x'' = ''2\<newline>ok\<newline>-1\<newline>x''
   \<and> parse ''2\<newline>ok\<newline>-1\<newline>x'' = Inr (None, ''2\<newline>ok\<newline>-1\<newline>x'')
   \<and> recv stored_lib ''2\<newline>ok\<newline>-1\<newline>x'' [ReadBytes ''y'']
       = (RecvReturn None None, ''2\<newline>ok\<newline>-1\<newline>x'', [ReadBytes ''y''])"
proof -
  have h1: "NL \<notin> set ''-1''" and h2: "''-1'' \<noteq> []" and h3: "''-1'' \<noteq> [CR]"
    by (simp_all add: NL_def CR_def)
  have a: "fst (Atoi ''-1'') < 0"
    by code_simp
  then have h4: "snd (Atoi ''-1'') \<noteq> None \<or> fst (Atoi ''-1'') < 0"
    by simp
  have f: "frame_bytes [''ok''] @ ''-1'' @ NL # ''x'' = ''2\<newline>ok\<newline>-1\<newline>x''"
    by code_simp
  have h5: "int (length (frame_bytes [''ok''] @ ''-1'' @ NL # ''x'')) \<le> max_int"
    by (subst f) (simp add: max_int_def)
  from C4_bad_length_nil_no_error [OF h1 h2 h3 h4 h5, of stored_lib "[ReadBytes ''y'']"] h1 h2 h3 a f
  show ?thesis by simp
qed

theorem C5_counterexample:
  "parse (''2'' @ [CR, NL] @ ''ok'' @ [NL, NL]) = Inr (None, ''2'' @ [CR, NL] @ ''ok'' @ [NL, NL])
   \<and> parse (''2'' @ [NL] @ ''ok'' @ [NL, NL]) = Inr (Some [''ok''], [])"
  by code_simp

theorem C5_cr_only_on_blank_line:
  assumes "ps \<noteq> []"
    and "int (length (frame_bytes ps @ dec_digits n @ CR # NL # rest)) \<le> max_int"
  shows "parse (frame_bytes ps @ CR # NL # rest) = Inr (Some ps, rest)
         \<and> parse (frame_bytes ps @ dec_digits n @ CR # NL # rest)
             = Inr (None, frame_bytes ps @ dec_digits n @ CR # NL # rest)"
proof
  show "parse (frame_bytes ps @ CR # NL # rest) = Inr (Some ps, rest)"
    using assms by (intro parse_frame_CR) simp_all
  let ?l = "dec_digits n @ [CR]"
  have "\<not> is_digit CR" "CR \<noteq> CHR ''+''" "CR \<noteq> CHR ''-''"
    by (simp_all add: is_digit_def CR_def)
  then have "ParseInt ?l = (0, Some ErrSyntax)"
    by (intro ParseInt_bad_char [of CR]) simp_all
  then have bad: "snd (Atoi ?l) \<noteq> None \<or> fst (Atoi ?l) < 0"
    by (simp add: Atoi_def)
  have "NL \<notin> set ?l"
    using NL_notin_dec_digits [of n] by (simp add: NL_def CR_def)
  moreover have "?l \<noteq> []" "?l \<noteq> [CR]"
    using dec_digits_nonempty [of n] by simp_all
  ultimately have "parse (frame_bytes ps @ ?l @ NL # rest)
                   = Inr (None, frame_bytes ps @ ?l @ NL # rest)"
    using bad assms(2) by (intro parse_bad_line) simp_all
  then show "parse (frame_bytes ps @ dec_digits n @ CR # NL # rest)
             = Inr (None, frame_bytes ps @ dec_digits n @ CR # NL # rest)"
    by simp
qed

theorem C5_cr_only_on_blank_line_witness:
  "[''ok''] \<noteq> []
   \<and> frame_bytes [''ok''] @ CR # NL # ''x'' = ''2\<newline>ok\<newline>'' @ [CR, NL] @ ''x''
   \<and> frame_bytes [''ok''] @ dec_digits 2 @ CR # NL # ''x'' = ''2\<newline>ok\<newline>2'' @ [CR, NL] @ ''x''
   \<and> parse (''2\<newline>ok\<newline>'' @ [CR, NL] @ ''x'') = Inr (Some [''ok''], ''x'')
   \<and> parse (''2\<newline>ok\<newline>2'' @ [CR, NL] @ ''x'') = Inr (None, ''2\<newline>ok\<newline>2'' @ [CR, NL] @ ''x'')"
proof -
  have h1: "[''ok''] \<noteq> ([] :: string list)"
    by simp
  have f1: "frame_bytes [''ok''] @ CR # NL # ''x'' = ''2\<newline>ok\<newline>'' @ [CR, NL] @ ''x''"
    by code_simp
  have f2: "frame_bytes [''ok''] @ dec_digits 2 @ CR # NL # ''x'' = ''2\<newline>ok\<newline>2'' @ [CR, NL] @ ''x''"
    by code_simp
  have h2: "int (length (frame_bytes [''ok''] @ dec_digits 2 @ CR # NL # ''x'')) \<le> max_int"
    by (subst f2) (simp add: max_int_def)
  from C5_cr_only_on_blank_line [OF h1 h2] h1 f1 f2
  show ?thesis by simp
qed

end
